theory Spec2Isabelle
  imports Main "HOL-Library.Sublist" "HOL-Library.AList"
begin

section \<open>The content downloader (ctdl.py): search, validation and command line\<close>

text \<open>
  The program is Python 3: strings are \<open>str\<close>, integers are unbounded, and a \<open>dict\<close>
  keeps its keys in the order of their first insertion. Strings are modelled as
  \<^typ>\<open>string\<close>; every string the program slices is compared with an ASCII literal only,
  so a slice of seven or eight characters decides the same way on bytes and on code points.

  Everything outside the process (the search engine, the probed hosts, the terminal, the
  downloader module) is an oracle of the environment: a function of an abstract world
  \<open>'w\<close> that returns what the call returned or raised, and the next world. Every call of
  an oracle is appended, with its outcome, to a trace of events, which is what the
  program can be observed to do.
\<close>

subsection \<open>Exceptions, pages, events, environment\<close>

datatype exn =
    HTTPError int
  | URLError
  | ValueError
  | TypeError
  | KeyError
  | AttributeError
  | EOFError
  | ConnectionError
  | SystemExit "int option"

text \<open>
  A search result page, as \<open>scrape\<close> sees it after \<open>soup.findAll('h3', {'class': 'r'})\<close>:
  the matched blocks in document order, each with its first anchor (if any) and the
  anchor's \<open>href\<close> attribute (if any).
\<close>

datatype tag = Tag (href: "string option")

datatype h3 = H3 "tag option"

datatype response = Response (getcode: int)

datatype event =
    Get string int "exn + h3 list"
  | Urlopen string "exn + response"
  | Print string
  | Input string "exn + string"
  | Download bool "string list" string int int bool "exn + unit"

record 'w env =
  s_get :: "'w \<Rightarrow> string \<Rightarrow> int \<Rightarrow> (exn + h3 list) \<times> 'w"
  urlopen :: "'w \<Rightarrow> string \<Rightarrow> (exn + response) \<times> 'w"
  input :: "'w \<Rightarrow> string \<Rightarrow> (exn + string) \<times> 'w"
  download :: "'w \<Rightarrow> bool \<Rightarrow> string list \<Rightarrow> string \<Rightarrow> int \<Rightarrow> int \<Rightarrow> bool \<Rightarrow> (exn + unit) \<times> 'w"

type_synonym 'w state = "'w \<times> event list"

subsection \<open>Python primitives the program uses\<close>

text \<open>\<open>range(start, stop, step)\<close> for a positive step.\<close>

definition py_range :: "int \<Rightarrow> int \<Rightarrow> int \<Rightarrow> int list" where
  "py_range start stop step =
     map (\<lambda>k. start + step * int k) [0..<nat ((stop - start + step - 1) div step)]"

text \<open>\<open>xs[:n]\<close>: a negative bound counts from the end.\<close>

definition py_slice_to :: "'a list \<Rightarrow> int \<Rightarrow> 'a list" where
  "py_slice_to xs n =
     (if 0 \<le> n then take (nat n) xs else take (length xs - nat (- n)) xs)"

text \<open>\<open>sub in s\<close> on strings: \<open>sub\<close> occurs in \<open>s\<close> as a contiguous block.\<close>

fun py_in :: "string \<Rightarrow> string \<Rightarrow> bool" where
  "py_in sub [] = (sub = [])"
| "py_in sub (c # cs) = (take (length sub) (c # cs) = sub \<or> py_in sub cs)"

text \<open>\<open>"%d" % n\<close>: the decimal numeral of an integer.\<close>

definition digit :: "nat \<Rightarrow> char" where
  "digit d = char_of (48 + d)"

fun decimal :: "nat \<Rightarrow> string" where
  "decimal n = (if n < 10 then [digit n] else decimal (n div 10) @ [digit (n mod 10)])"

definition str_of_int :: "int \<Rightarrow> string" where
  "str_of_int i = (if i < 0 then CHR ''-'' # decimal (nat (- i)) else decimal (nat i))"

subsection \<open>scrape\<close>

text \<open>
  \<open>result.a['href'][7:].split('&')[0]\<close>: a block without an anchor gives \<open>None['href']\<close>,
  a \<open>TypeError\<close>; an anchor without \<open>href\<close> a \<open>KeyError\<close>.
\<close>

fun scrape_link :: "h3 \<Rightarrow> exn + string" where
  "scrape_link (H3 None) = Inl TypeError"
| "scrape_link (H3 (Some (Tag None))) = Inl KeyError"
| "scrape_link (H3 (Some (Tag (Some h)))) = Inr (takeWhile (\<lambda>c. c \<noteq> CHR ''&'') (drop 7 h))"

fun scrape_loop :: "h3 list \<Rightarrow> string list \<Rightarrow> exn + string list" where
  "scrape_loop [] links = Inr links"
| "scrape_loop (result # results) links =
     (case scrape_link result of
        Inl e \<Rightarrow> Inl e
      | Inr link \<Rightarrow> scrape_loop results (links @ [link]))"

definition scrape :: "h3 list \<Rightarrow> exn + string list" where
  "scrape html = scrape_loop html []"

subsection \<open>get_links\<close>

text \<open>
  One \<open>s.get(search_url, params, headers)\<close> per start index; \<open>params\<close> is the query string
  \<open>q\<close> and the start index, the URL and the headers are constants. The session retries
  only \<open>http://\<close> hosts and the search URL is \<open>https://\<close>, so a call is one request.
\<close>

fun get_links_loop ::
  "'w env \<Rightarrow> int list \<Rightarrow> string \<Rightarrow> string list \<Rightarrow> 'w state \<Rightarrow> (exn + string list) \<times> 'w state" where
  "get_links_loop env [] q links st = (Inr links, st)"
| "get_links_loop env (start_index # rest) q links (w, tr) =
     (case s_get env w q start_index of
        (Inl e, w') \<Rightarrow> (Inl e, (w', tr @ [Get q start_index (Inl e)]))
      | (Inr html, w') \<Rightarrow>
          (case scrape html of
             Inl e \<Rightarrow> (Inl e, (w', tr @ [Get q start_index (Inr html)]))
           | Inr page_links \<Rightarrow>
               get_links_loop env rest q (links @ page_links)
                 (w', tr @ [Get q start_index (Inr html)])))"

definition get_links :: "'w env \<Rightarrow> int \<Rightarrow> string \<Rightarrow> 'w state \<Rightarrow> (exn + string list) \<times> 'w state" where
  "get_links env limit q st =
     (case get_links_loop env (py_range 0 limit 10) q [] st of
        (Inl e, st') \<Rightarrow> (Inl e, st')
      | (Inr links, st') \<Rightarrow> (Inr (py_slice_to links limit), st'))"

subsection \<open>get_url_nofollow\<close>

text \<open>
  The \<open>try\<close> block with its two handlers, on what \<open>urlopen\<close> returned or raised: the
  response's code, the code of an \<open>HTTPError\<close>, and 0 for every other exception (the
  bare \<open>except\<close> catches them all).
\<close>

fun probe_code :: "exn + response \<Rightarrow> exn + int" where
  "probe_code (Inr response) = Inr (getcode response)"
| "probe_code (Inl (HTTPError code)) = Inr code"
| "probe_code (Inl _) = Inr 0"

definition get_url_nofollow :: "'w env \<Rightarrow> string \<Rightarrow> 'w state \<Rightarrow> (exn + int) \<times> 'w state" where
  "get_url_nofollow env url st =
     (case st of (w, tr) \<Rightarrow>
        (case urlopen env w url of (r, w') \<Rightarrow> (probe_code r, (w', tr @ [Urlopen url r]))))"

subsection \<open>validate_links\<close>

definition scheme_ok :: "string \<Rightarrow> bool" where
  "scheme_ok link = (py_in (take 7 link) ''http://'' \<or> py_in (take 8 link) ''https://'')"

fun filter_loop :: "string list \<Rightarrow> string list \<Rightarrow> string list" where
  "filter_loop [] valid_links = valid_links"
| "filter_loop (link # links) valid_links =
     filter_loop links (if scheme_ok link then valid_links @ [link] else valid_links)"

text \<open>
  \<open>urls\<close> is a \<open>dict\<close> from a link to \<open>{'code': c}\<close>, modelled as an association list from
  the link to \<open>c\<close> in insertion order; \<open>urls[link] = v\<close> is \<^const>\<open>AList.update\<close>, which
  replaces the value of a key that is present where it stands, and appends a new key.
\<close>

fun probe_loop ::
  "'w env \<Rightarrow> string list \<Rightarrow> (string \<times> int) list \<Rightarrow> 'w state \<Rightarrow> (exn + (string \<times> int) list) \<times> 'w state" where
  "probe_loop env [] urls st = (Inr urls, st)"
| "probe_loop env (link # rest) urls st =
     (case get_url_nofollow env link st of
        (Inl e, st') \<Rightarrow> (Inl e, st')
      | (Inr code, st') \<Rightarrow> probe_loop env rest (AList.update link code urls) st')"

definition report_line :: "int \<Rightarrow> string \<Rightarrow> string" where
  "report_line code url = ''code: '' @ str_of_int code @ [CHR 0x09] @ ''url: '' @ url"

fun report_loop ::
  "string list \<Rightarrow> (string \<times> int) list \<Rightarrow> string list \<Rightarrow> event list \<Rightarrow> (exn + string list) \<times> event list" where
  "report_loop [] urls available_urls tr = (Inr available_urls, tr)"
| "report_loop (url # rest) urls available_urls tr =
     (case map_of urls url of
        None \<Rightarrow> (Inl KeyError, tr)
      | Some code \<Rightarrow>
          report_loop rest urls
            (if code \<noteq> 0 then available_urls @ [url] else available_urls)
            (tr @ [Print (report_line code url)]))"

definition validate_links :: "'w env \<Rightarrow> string list \<Rightarrow> 'w state \<Rightarrow> (exn + string list) \<times> 'w state" where
  "validate_links env links st =
     (case probe_loop env (filter_loop links []) [] st of
        (Inl e, st') \<Rightarrow> (Inl e, st')
      | (Inr urls, (w', tr')) \<Rightarrow>
          (case report_loop (map fst urls) urls [] tr' of
             (r, tr'') \<Rightarrow> (r, (w', tr''))))"

subsection \<open>search\<close>

definition search :: "'w env \<Rightarrow> string \<Rightarrow> string \<Rightarrow> int \<Rightarrow> 'w state \<Rightarrow> (exn + string list) \<times> 'w state" where
  "search env query file_type limit st =
     (let gquery = ''filetype:'' @ file_type @ '' '' @ query in
      case get_links env limit gquery st of
        (Inl e, st') \<Rightarrow> (Inl e, st')
      | (Inr links, st') \<Rightarrow> validate_links env links st')"

subsection \<open>check_threats\<close>

text \<open>
  \<open>utils.py\<close> is not among the sources, so the two extension tables are parameters: a
  \<open>dict\<close> from a description to an extension or to a list of extensions.
\<close>

datatype ext = Str string | Lst "string list"

type_synonym catalog = "(string \<times> ext) list"

text \<open>The inner \<open>for el in val\<close>: its \<open>break\<close> leaves the inner loop only.\<close>

fun check_list :: "string \<Rightarrow> string list \<Rightarrow> bool \<Rightarrow> bool" where
  "check_list ft [] is_high_threat = is_high_threat"
| "check_list ft (el # els) is_high_threat =
     (if ft = el then True else check_list ft els is_high_threat)"

text \<open>The outer \<open>for val in THREAT_EXTENSIONS.values()\<close>: the \<open>break\<close> of the scalar case ends it.\<close>

fun check_values :: "string \<Rightarrow> ext list \<Rightarrow> bool \<Rightarrow> bool" where
  "check_values ft [] is_high_threat = is_high_threat"
| "check_values ft (Lst val # vals) is_high_threat =
     check_values ft vals (check_list ft val is_high_threat)"
| "check_values ft (Str val # vals) is_high_threat =
     (if ft = val then True else check_values ft vals is_high_threat)"

definition check_threats :: "catalog \<Rightarrow> string \<Rightarrow> bool" where
  "check_threats THREAT_EXTENSIONS ft = check_values ft (map snd THREAT_EXTENSIONS) False"

subsection \<open>The command line\<close>

text \<open>The namespace \<open>parse_args\<close> returns, as \<open>main\<close> reads it.\<close>

record args =
  query :: "string option"
  file_type :: string
  limit :: int
  directory :: "string option"
  parallel :: bool
  available :: bool
  threats :: bool
  min_file_size :: int
  max_file_size :: int
  no_redirects :: bool

text \<open>\<open>sys.exit()\<close> raises \<open>SystemExit(None)\<close>.\<close>

definition validate_args :: "args \<Rightarrow> 'w state \<Rightarrow> (exn + unit) \<times> 'w state" where
  "validate_args args st =
     (case st of (w, tr) \<Rightarrow>
        if query args = None \<or> query args = Some []
        then (Inl (SystemExit None), (w, tr @ [Print (CHR 0x0A # ''Missing required query argument.'')]))
        else (Inr (), (w, tr)))"

fun default_directory :: "string option \<Rightarrow> string option \<Rightarrow> exn + string" where
  "default_directory (Some (c # cs)) q = Inr (c # cs)"
| "default_directory d None = Inl AttributeError"
| "default_directory d (Some q) = Inr (map (\<lambda>c. if c = CHR '' '' then CHR ''-'' else c) q)"

definition str_of_opt :: "string option \<Rightarrow> string" where
  "str_of_opt s = (case s of None \<Rightarrow> ''None'' | Some t \<Rightarrow> t)"

definition download_content :: "'w env \<Rightarrow> args \<Rightarrow> 'w state \<Rightarrow> (exn + unit) \<times> 'w state" where
  "download_content env args st =
     (case st of (w, tr) \<Rightarrow>
        (case default_directory (directory args) (query args) of
           Inl e \<Rightarrow> (Inl e, (w, tr))
         | Inr dir \<Rightarrow>
             (case search env (str_of_opt (query args)) (file_type args) (limit args)
                     (w, tr @ [Print (''Downloading '' @ str_of_int (limit args) @ '' '' @ file_type args
                                 @ '' files on topic '' @ str_of_opt (query args)
                                 @ '' and saving to directory: '' @ dir)]) of
                (Inl e, st') \<Rightarrow> (Inl e, st')
              | (Inr links, (w', tr')) \<Rightarrow>
                  (case download env w' (parallel args) links dir
                          (min_file_size args) (max_file_size args) (no_redirects args) of
                     (r, w'') \<Rightarrow>
                       (r, (w'', tr' @ [Download (parallel args) links dir
                              (min_file_size args) (max_file_size args) (no_redirects args) r]))))))"

fun join :: "string \<Rightarrow> string list \<Rightarrow> string" where
  "join sep [] = []"
| "join sep [x] = x"
| "join sep (x # y # ys) = x @ sep @ join sep (y # ys)"

fun show_filetypes :: "catalog \<Rightarrow> event list \<Rightarrow> event list" where
  "show_filetypes [] tr = tr"
| "show_filetypes ((name, v) # items) tr =
     (let val = (case v of Str s \<Rightarrow> s | Lst l \<Rightarrow> join '', '' l) in
      show_filetypes items
        (tr @ [Print (val @ replicate (4 - length val) (CHR '' '') @ '': '' @ name)]))"

text \<open>
  The \<open>while res is None\<close> loop of \<open>prompt\<close> ends only on an answer that \<open>isexit\<close> or
  \<open>isvalid\<close> accepts, or when \<open>input\<close> raises; on a terminal that keeps answering
  anything else it runs forever, which is the value \<open>None\<close> here.
\<close>

partial_function (option) prompt ::
  "'w env \<Rightarrow> string \<Rightarrow> string \<Rightarrow> (string \<Rightarrow> bool) \<Rightarrow> (string \<Rightarrow> bool) \<Rightarrow> 'w state
     \<Rightarrow> ((exn + string) \<times> 'w state) option" where
  "prompt env message errormessage isvalid isexit st =
     (case st of (w, tr) \<Rightarrow>
        (case input env w (message @ '': '') of (r, w') \<Rightarrow>
           (case r of
              Inl e \<Rightarrow> Some (Inl e, (w', tr @ [Input (message @ '': '') r]))
            | Inr res \<Rightarrow>
                if isexit res
                then Some (Inl (SystemExit None), (w', tr @ [Input (message @ '': '') r]))
                else if \<not> isvalid res
                then prompt env message errormessage isvalid isexit
                       (w', tr @ [Input (message @ '': '') r, Print errormessage])
                else Some (Inr res, (w', tr @ [Input (message @ '': '') r])))))"

definition warning :: string where
  "warning = ''WARNING: Downloading this file type may expose you to a heightened security risk.''
     @ [CHR 0x0A] @ ''Press 'y' to proceed or 'n' to exit''"

text \<open>
  \<open>main\<close> after \<open>parse_args\<close>. The lambdas compare with \<open>is\<close>; CPython keeps one object
  for each one-character string, so on the answers \<open>'y'\<close> and \<open>'n'\<close> identity is equality.
\<close>

definition main :: "'w env \<Rightarrow> catalog \<Rightarrow> catalog \<Rightarrow> args \<Rightarrow> 'w state \<Rightarrow> ((exn + unit) \<times> 'w state) option" where
  "main env FILE_EXTENSIONS THREAT_EXTENSIONS args st =
     (case st of (w, tr) \<Rightarrow>
        if available args then Some (Inr (), (w, show_filetypes FILE_EXTENSIONS tr))
        else if threats args then Some (Inr (), (w, show_filetypes THREAT_EXTENSIONS tr))
        else
          (case (if check_threats THREAT_EXTENSIONS (file_type args)
                 then prompt env warning ''Error: Invalid option provided.''
                        (\<lambda>x. x = ''y'') (\<lambda>x. x = ''n'') st
                 else Some (Inr [], st)) of
             None \<Rightarrow> None
           | Some (Inl e, st') \<Rightarrow> Some (Inl e, st')
           | Some (Inr res, st') \<Rightarrow>
               (case validate_args args st' of
                  (Inl e, st'') \<Rightarrow> Some (Inl e, st'')
                | (Inr u, st'') \<Rightarrow> Some (download_content env args st''))))"

text \<open>
  The exit status of the process: 0 when \<open>main\<close> returns, the argument of \<open>SystemExit\<close>
  (0 for \<open>None\<close>), and 1 for an exception nobody caught.
\<close>

fun exit_status :: "exn + unit \<Rightarrow> int" where
  "exit_status (Inr u) = 0"
| "exit_status (Inl (SystemExit None)) = 0"
| "exit_status (Inl (SystemExit (Some n))) = n"
| "exit_status (Inl e) = 1"

fun network_io :: "event \<Rightarrow> bool" where
  "network_io (Get q i r) = True"
| "network_io (Urlopen url r) = True"
| "network_io (Download p links dir lo hi nr r) = True"
| "network_io (Print s) = False"
| "network_io (Input s r) = False"

subsection \<open>Reading a trace\<close>

text \<open>The start indices of the search requests of a trace, in the order they were issued.\<close>

fun get_starts :: "event list \<Rightarrow> int list" where
  "get_starts [] = []"
| "get_starts (Get q i r # tr) = i # get_starts tr"
| "get_starts (e # tr) = get_starts tr"

text \<open>The links scraped from the page of each search request that was answered.\<close>

fun get_pages :: "event list \<Rightarrow> string list list" where
  "get_pages [] = []"
| "get_pages (Get q i (Inr html) # tr) =
     (case scrape html of Inr page_links \<Rightarrow> page_links | Inl e \<Rightarrow> []) # get_pages tr"
| "get_pages (e # tr) = get_pages tr"

text \<open>The probes of a trace: each probed URL with the code \<open>get_url_nofollow\<close> returned for it.\<close>

fun probes :: "event list \<Rightarrow> (string \<times> int) list" where
  "probes [] = []"
| "probes (Urlopen url r # tr) =
     (case probe_code r of Inr code \<Rightarrow> (url, code) # probes tr | Inl e \<Rightarrow> probes tr)"
| "probes (e # tr) = probes tr"

text \<open>The code of the last probe of a URL in a trace.\<close>

definition last_probe :: "event list \<Rightarrow> string \<Rightarrow> int option" where
  "last_probe tr url = map_of (rev (probes tr)) url"

text \<open>The lines printed in a trace.\<close>

fun printed :: "event list \<Rightarrow> string list" where
  "printed [] = []"
| "printed (Print s # tr) = s # printed tr"
| "printed (e # tr) = printed tr"

text \<open>The extensions a catalog value stands for.\<close>

fun extensions :: "ext \<Rightarrow> string set" where
  "extensions (Str s) = {s}"
| "extensions (Lst l) = set l"

text \<open>
  A network on which every search request is answered with a page that \<open>scrape\<close> accepts.
\<close>

definition reliable :: "'w env \<Rightarrow> bool" where
  "reliable env = (\<forall>w q i. \<exists>html links. fst (s_get env w q i) = Inr html \<and> scrape html = Inr links)"

subsection \<open>Mock environments\<close>

text \<open>
  The world of the mocks is the number of calls made so far. The first mock answers every
  search request with a page of three results and probes with the codes of three hosts;
  the host \<open>flaky\<close> answers every second probe only.
\<close>

definition three_results :: "h3 list" where
  "three_results =
     [H3 (Some (Tag (Some ''/url?q=http://a/1.pdf&sa=U''))),
      H3 (Some (Tag (Some ''/url?q=http://b/2.pdf&sa=U''))),
      H3 (Some (Tag (Some ''/url?q=http://c/3.pdf&sa=U'')))]"

definition mock :: "nat env" where
  "mock = \<lparr>
     s_get = (\<lambda>w q i. (Inr three_results, Suc w)),
     urlopen = (\<lambda>w url.
       (if url = ''http://a/1.pdf'' then Inr (Response 200)
        else if url = ''http://c/3.pdf'' then Inl (HTTPError 404)
        else if url = ''http://flaky/'' \<and> even w then Inr (Response 200)
        else Inl URLError, Suc w)),
     input = (\<lambda>w message. (Inl EOFError, Suc w)),
     download = (\<lambda>w p links dir lo hi nr. (Inr (), Suc w)) \<rparr>"

text \<open>The second mock answers every search request with a full page of ten results.\<close>

definition full_page :: "nat env" where
  "full_page = mock \<lparr> s_get :=
     (\<lambda>w q i. (Inr (replicate 10 (H3 (Some (Tag (Some ''/url?q=http://a/1.pdf&sa=U''))))), Suc w)) \<rparr>"

definition threat_catalog :: catalog where
  "threat_catalog = [(''Executable'', Str ''exe''), (''JPEG image'', Lst [''jpg'', ''jpeg''])]"

definition no_query :: args where
  "no_query = \<lparr> query = None, file_type = ''pdf'', limit = 10, directory = None,
     parallel = False, available = False, threats = False,
     min_file_size = 0, max_file_size = - 1, no_redirects = False \<rparr>"

section \<open>Properties\<close>

subsection \<open>Auxiliary facts about the primitives and the loops\<close>

lemma take_length_prefix: "take (length sub) s = sub \<longleftrightarrow> prefix sub s"
  by (metis prefix_def take_is_prefix append_eq_conv_conj)

lemma py_in_sublist: "py_in sub s = sublist sub s"
  by (induction s) (simp_all add: sublist_Cons_right take_length_prefix del: take_Suc_Cons)

lemma py_in_iff: "py_in sub s \<longleftrightarrow> (\<exists>ps ss. s = ps @ sub @ ss)"
  by (simp add: py_in_sublist sublist_def)

lemma filter_loop_eq: "filter_loop links valid_links = valid_links @ filter scheme_ok links"
  by (induction links arbitrary: valid_links) auto

lemma scrape_loop_order:
  "scrape_loop html links = Inr ls \<Longrightarrow> \<exists>new. ls = links @ new \<and> map scrape_link html = map Inr new"
proof (induction html arbitrary: links)
  case Nil
  then show ?case by simp
next
  case (Cons result results)
  then obtain link where l: "scrape_link result = Inr link"
    and r: "scrape_loop results (links @ [link]) = Inr ls"
    by (auto split: sum.splits)
  from Cons.IH[OF r] obtain new where
    "ls = (links @ [link]) @ new" "map scrape_link results = map Inr new"
    by blast
  with l have "ls = links @ (link # new) \<and> map scrape_link (result # results) = map Inr (link # new)"
    by simp
  then show ?case by blast
qed

text \<open>The links of a page come out in document order, one for each result block.\<close>

lemma scrape_order: "scrape html = Inr ls \<Longrightarrow> map scrape_link html = map Inr ls"
  using scrape_loop_order[of html "[]" ls] by (auto simp: scrape_def)

lemma get_starts_append: "get_starts (xs @ ys) = get_starts xs @ get_starts ys"
  by (induction xs rule: get_starts.induct) auto

lemma get_pages_append: "get_pages (xs @ ys) = get_pages xs @ get_pages ys"
  by (induction xs rule: get_pages.induct) auto

lemma probes_append: "probes (xs @ ys) = probes xs @ probes ys"
  by (induction xs rule: probes.induct) (auto split: sum.splits)

lemma printed_append: "printed (xs @ ys) = printed xs @ printed ys"
  by (induction xs rule: printed.induct) auto

lemma get_links_loop_trace:
  "\<exists>r w' evs. get_links_loop env starts q links (w, tr) = (r, (w', tr @ evs))
     \<and> prefix (get_starts evs) starts \<and> length (get_starts evs) = length evs
     \<and> probes evs = [] \<and> printed evs = []
     \<and> (\<forall>ls. r = Inr ls \<longrightarrow> get_starts evs = starts \<and> ls = links @ concat (get_pages evs))"
proof (induction starts arbitrary: links w tr)
  case Nil
  then show ?case by simp
next
  case (Cons i rest)
  obtain r w1 where g: "s_get env w q i = (r, w1)" by (cases "s_get env w q i")
  show ?case
  proof (cases r)
    case (Inl e)
    with g show ?thesis by simp
  next
    case (Inr html)
    show ?thesis
    proof (cases "scrape html")
      case (Inl e)
      with g Inr show ?thesis by simp
    next
      case scr: (Inr page_links)
      from Cons.IH[of "links @ page_links" w1 "tr @ [Get q i (Inr html)]"]
      obtain r' w' evs where
        1: "get_links_loop env rest q (links @ page_links) (w1, tr @ [Get q i (Inr html)])
              = (r', (w', (tr @ [Get q i (Inr html)]) @ evs))"
        and 2: "prefix (get_starts evs) rest" "length (get_starts evs) = length evs"
          "probes evs = []" "printed evs = []"
        and 3: "\<forall>ls. r' = Inr ls \<longrightarrow> get_starts evs = rest \<and> ls = (links @ page_links) @ concat (get_pages evs)"
        by blast
      have "get_links_loop env (i # rest) q links (w, tr) = (r', (w', tr @ (Get q i (Inr html) # evs)))"
        using g Inr scr 1 by simp
      moreover have "prefix (get_starts (Get q i (Inr html) # evs)) (i # rest)"
        using 2 by simp
      moreover have "length (get_starts (Get q i (Inr html) # evs)) = length (Get q i (Inr html) # evs)"
        using 2 by simp
      moreover have "probes (Get q i (Inr html) # evs) = []" "printed (Get q i (Inr html) # evs) = []"
        using 2 by simp_all
      moreover have "\<forall>ls. r' = Inr ls \<longrightarrow> get_starts (Get q i (Inr html) # evs) = i # rest
          \<and> ls = links @ concat (get_pages (Get q i (Inr html) # evs))"
        using 3 scr by simp
      ultimately show ?thesis by blast
    qed
  qed
qed

lemma get_links_loop_reliable:
  "reliable env \<Longrightarrow> \<exists>ls st'. get_links_loop env starts q links st = (Inr ls, st')"
proof (induction starts arbitrary: links st)
  case Nil
  then show ?case by simp
next
  case (Cons i rest)
  obtain w tr where st: "st = (w, tr)" by (cases st)
  from Cons.prems obtain html pl where h: "fst (s_get env w q i) = Inr html" "scrape html = Inr pl"
    unfolding reliable_def by blast
  then obtain w1 where "s_get env w q i = (Inr html, w1)" by (cases "s_get env w q i") auto
  with h st Cons.IH[OF Cons.prems] show ?case by simp
qed

lemma py_range_10: "py_range 0 lim 10 = map (\<lambda>k. 10 * int k) [0..<nat ((lim + 9) div 10)]"
  by (simp add: py_range_def add.commute)

lemma set_py_range: "set (py_range 0 lim 10) = {i. 0 \<le> i \<and> i < lim \<and> i mod 10 = 0}"
proof (rule set_eqI)
  fix i
  have "(\<exists>k. i = 10 * int k \<and> k < nat ((lim + 9) div 10)) \<longleftrightarrow> (0 \<le> i \<and> i < lim \<and> i mod 10 = 0)"
  proof
    assume "\<exists>k. i = 10 * int k \<and> k < nat ((lim + 9) div 10)"
    then obtain k where "i = 10 * int k" "k < nat ((lim + 9) div 10)" by blast
    then show "0 \<le> i \<and> i < lim \<and> i mod 10 = 0" by auto
  next
    assume a: "0 \<le> i \<and> i < lim \<and> i mod 10 = 0"
    then have "i = 10 * int (nat (i div 10))" by auto
    moreover from a have "nat (i div 10) < nat ((lim + 9) div 10)" by auto
    ultimately show "\<exists>k. i = 10 * int k \<and> k < nat ((lim + 9) div 10)" by blast
  qed
  then show "i \<in> set (py_range 0 lim 10) \<longleftrightarrow> i \<in> {i. 0 \<le> i \<and> i < lim \<and> i mod 10 = 0}"
    unfolding py_range_10 by (simp add: image_iff Bex_def conj_commute)
qed

lemma length_py_range: "length (py_range 0 lim 10) = nat ((lim + 9) div 10)"
  by (simp add: py_range_10)

lemma py_range_multiple:
  "0 \<le> L \<Longrightarrow> L mod 10 = 0 \<Longrightarrow> py_range 0 L 10 = map (\<lambda>k. 10 * int k) [0..<nat (L div 10)]"
proof -
  assume "0 \<le> L" "L mod 10 = 0"
  then have "(L + 9) div 10 = L div 10" by presburger
  then show ?thesis unfolding py_range_10 by simp
qed

lemma py_range_nonpos: "lim \<le> 0 \<Longrightarrow> py_range 0 lim 10 = []"
  by (simp add: py_range_10)

lemma length_py_slice_to: "0 \<le> n \<Longrightarrow> length (py_slice_to xs n) \<le> nat n"
  by (simp add: py_slice_to_def)

lemma get_links_trace:
  "\<exists>r w' evs. get_links env lim q (w, tr) = (r, (w', tr @ evs))
     \<and> prefix (get_starts evs) (py_range 0 lim 10) \<and> length (get_starts evs) = length evs
     \<and> probes evs = [] \<and> printed evs = []
     \<and> (\<forall>ls. r = Inr ls \<longrightarrow> get_starts evs = py_range 0 lim 10
            \<and> ls = py_slice_to (concat (get_pages evs)) lim)"
proof -
  from get_links_loop_trace[of env "py_range 0 lim 10" q "[]" w tr]
  obtain r w' evs where
    1: "get_links_loop env (py_range 0 lim 10) q [] (w, tr) = (r, (w', tr @ evs))"
    and 2: "prefix (get_starts evs) (py_range 0 lim 10)" "length (get_starts evs) = length evs"
      "probes evs = []" "printed evs = []"
    and 3: "\<forall>ls. r = Inr ls \<longrightarrow> get_starts evs = py_range 0 lim 10 \<and> ls = [] @ concat (get_pages evs)"
    by blast
  show ?thesis
  proof (cases r)
    case (Inl e)
    with 1 have "get_links env lim q (w, tr) = (Inl e, (w', tr @ evs))"
      by (simp add: get_links_def)
    with 2 show ?thesis by blast
  next
    case (Inr links)
    with 1 have "get_links env lim q (w, tr) = (Inr (py_slice_to links lim), (w', tr @ evs))"
      by (simp add: get_links_def)
    moreover from 3 Inr have "get_starts evs = py_range 0 lim 10" "links = concat (get_pages evs)"
      by simp_all
    ultimately show ?thesis using 2 by blast
  qed
qed

lemma get_links_length:
  assumes "get_links env lim q (w, tr) = (Inr ls, st')"
  shows "int (length ls) \<le> max 0 lim"
proof (cases "0 \<le> lim")
  case True
  from assms obtain links where "ls = py_slice_to links lim"
    by (auto simp: get_links_def split: prod.splits sum.splits)
  with True show ?thesis using length_py_slice_to[of lim links] by simp
next
  case False
  then have "py_range 0 lim 10 = []" by (simp add: py_range_nonpos)
  with assms have "ls = py_slice_to [] lim" by (simp add: get_links_def)
  then show ?thesis by (simp add: py_slice_to_def)
qed

lemma get_links_reliable:
  "reliable env \<Longrightarrow> \<exists>ls st'. get_links env lim q st = (Inr ls, st')"
  using get_links_loop_reliable[of env "py_range 0 lim 10" q "[]" st]
  by (auto simp: get_links_def)


lemma probe_code_returns: "\<exists>code. probe_code r = Inr code"
  by (cases r rule: probe_code.cases) simp_all

lemma get_url_nofollow_run:
  "\<exists>code. get_url_nofollow env url (w, tr)
       = (Inr code, (snd (urlopen env w url), tr @ [Urlopen url (fst (urlopen env w url))]))
     \<and> probe_code (fst (urlopen env w url)) = Inr code"
  using probe_code_returns[of "fst (urlopen env w url)"]
  by (auto simp: get_url_nofollow_def split: prod.splits)

lemma probe_loop_trace:
  "\<exists>urls' w' evs. probe_loop env ls urls (w, tr) = (Inr urls', (w', tr @ evs))
     \<and> map fst (probes evs) = ls \<and> length evs = length ls
     \<and> get_starts evs = [] \<and> printed evs = []
     \<and> urls' = fold (\<lambda>(k, v). AList.update k v) (probes evs) urls"
proof (induction ls arbitrary: urls w tr)
  case Nil
  then show ?case by simp
next
  case (Cons link rest)
  define r where "r = fst (urlopen env w link)"
  define w1 where "w1 = snd (urlopen env w link)"
  from get_url_nofollow_run[of env link w tr] obtain code where
    g: "get_url_nofollow env link (w, tr) = (Inr code, (w1, tr @ [Urlopen link r]))"
    and c: "probe_code r = Inr code"
    unfolding r_def w1_def by blast
  from Cons.IH[of "AList.update link code urls" w1 "tr @ [Urlopen link r]"]
  obtain urls' w' evs where
    1: "probe_loop env rest (AList.update link code urls) (w1, tr @ [Urlopen link r])
          = (Inr urls', (w', (tr @ [Urlopen link r]) @ evs))"
    and 2: "map fst (probes evs) = rest" "length evs = length rest"
      "get_starts evs = []" "printed evs = []"
    and 3: "urls' = fold (\<lambda>(k, v). AList.update k v) (probes evs) (AList.update link code urls)"
    by blast
  have a: "probe_loop env (link # rest) urls (w, tr) = (Inr urls', (w', tr @ (Urlopen link r # evs)))"
    using g 1 by simp
  have b: "map fst (probes (Urlopen link r # evs)) = link # rest"
    using 2 c by simp
  have d: "length (Urlopen link r # evs) = length (link # rest)"
    using 2 by simp
  have e: "get_starts (Urlopen link r # evs) = []" "printed (Urlopen link r # evs) = []"
    using 2 by simp_all
  have f: "urls' = fold (\<lambda>(k, v). AList.update k v) (probes (Urlopen link r # evs)) urls"
    using 3 c by simp
  show ?case
    by (rule exI[of _ urls'], rule exI[of _ w'], rule exI[of _ "Urlopen link r # evs"])
       (insert a b d e f, intro conjI, assumption+)
qed

lemma map_of_fold_update:
  "map_of (fold (\<lambda>(k, v). AList.update k v) ps urls) = map_of urls ++ map_of (rev ps)"
proof (induction ps arbitrary: urls)
  case Nil
  then show ?case by simp
next
  case (Cons p ps)
  obtain k v where p: "p = (k, v)" by (cases p)
  have "map_of (fold (\<lambda>(k, v). AList.update k v) (p # ps) urls)
      = map_of (AList.update k v urls) ++ map_of (rev ps)"
    using Cons.IH[of "AList.update k v urls"] p by simp
  also have "\<dots> = map_of urls ++ map_of (rev (p # ps))"
    by (rule ext) (simp add: p update_conv' map_add_def split: option.splits)
  finally show ?case .
qed

lemma keys_fold_update:
  "map fst (fold (\<lambda>(k, v). AList.update k v) ps []) = rev (remdups (rev (map fst ps)))"
proof (induction ps rule: rev_induct)
  case Nil
  then show ?case by simp
next
  case (snoc p ps)
  obtain k v where p: "p = (k, v)" by (cases p)
  let ?d = "fold (\<lambda>(k, v). AList.update k v) ps []"
  have s: "set (map fst ?d) = set (map fst ps)"
    unfolding snoc.IH by simp
  have "map fst (fold (\<lambda>(k, v). AList.update k v) (ps @ [p]) [])
      = map fst (AList.update k v ?d)"
    by (simp add: p)
  also have "\<dots> = (if k \<in> set (map fst ps) then map fst ?d else map fst ?d @ [k])"
    unfolding update_keys s by simp
  also have "\<dots> = rev (remdups (rev (map fst (ps @ [p]))))"
    using snoc.IH by (simp add: p)
  finally show ?case .
qed

lemma report_loop_eq:
  "set keys \<subseteq> fst ` set urls \<Longrightarrow>
   report_loop keys urls acc tr
     = (Inr (acc @ filter (\<lambda>k. map_of urls k \<noteq> Some 0) keys),
        tr @ map (\<lambda>k. Print (report_line (the (map_of urls k)) k)) keys)"
proof (induction keys arbitrary: acc tr)
  case Nil
  then show ?case by simp
next
  case (Cons k keys)
  then have "k \<in> fst ` set urls" by simp
  then obtain c where c: "map_of urls k = Some c"
    by (metis map_of_eq_None_iff not_Some_eq)
  from Cons.prems have sub: "set keys \<subseteq> fst ` set urls" by simp
  show ?case using c Cons.IH[OF sub] by simp
qed

lemma report_lines_distinct:
  "distinct (map fst urls) \<Longrightarrow>
   map (\<lambda>k. Print (report_line (the (map_of urls k)) k)) (map fst urls)
     = map (\<lambda>(url, code). Print (report_line code url)) urls"
  by (auto simp: map_of_eq_Some_iff[THEN iffD2] split: prod.splits)

lemma validate_links_run:
  "\<exists>urls w' evs.
     probe_loop env (filter_loop links []) [] (w, tr) = (Inr urls, (w', tr @ evs))
     \<and> validate_links env links (w, tr)
         = (Inr (filter (\<lambda>url. map_of urls url \<noteq> Some 0) (map fst urls)),
            (w', tr @ evs @ map (\<lambda>(url, code). Print (report_line code url)) urls))
     \<and> map fst (probes evs) = filter_loop links [] \<and> length evs = length (filter_loop links [])
     \<and> get_starts evs = [] \<and> printed evs = []
     \<and> map fst urls = rev (remdups (rev (filter_loop links [])))
     \<and> map_of urls = map_of (rev (probes evs))"
proof -
  from probe_loop_trace[of env "filter_loop links []" "[]" w tr]
  obtain urls w' evs where
    1: "probe_loop env (filter_loop links []) [] (w, tr) = (Inr urls, (w', tr @ evs))"
    and 2: "map fst (probes evs) = filter_loop links []" "length evs = length (filter_loop links [])"
      "get_starts evs = []" "printed evs = []"
    and 3: "urls = fold (\<lambda>(k, v). AList.update k v) (probes evs) []"
    by blast
  have keys: "map fst urls = rev (remdups (rev (filter_loop links [])))"
    unfolding 3 keys_fold_update 2 ..
  then have d: "distinct (map fst urls)" by simp
  have m: "map_of urls = map_of (rev (probes evs))"
    unfolding 3 map_of_fold_update by simp
  have "report_loop (map fst urls) urls [] (tr @ evs)
      = (Inr ([] @ filter (\<lambda>k. map_of urls k \<noteq> Some 0) (map fst urls)),
         (tr @ evs) @ map (\<lambda>k. Print (report_line (the (map_of urls k)) k)) (map fst urls))"
    by (rule report_loop_eq) simp
  then have "report_loop (map fst urls) urls [] (tr @ evs)
      = (Inr (filter (\<lambda>k. map_of urls k \<noteq> Some 0) (map fst urls)),
         tr @ evs @ map (\<lambda>(url, code). Print (report_line code url)) urls)"
    unfolding report_lines_distinct[OF d] by simp
  with 1 have "validate_links env links (w, tr)
      = (Inr (filter (\<lambda>url. map_of urls url \<noteq> Some 0) (map fst urls)),
         (w', tr @ evs @ map (\<lambda>(url, code). Print (report_line code url)) urls))"
    by (simp add: validate_links_def)
  with 1 2 keys m show ?thesis by blast
qed

subsection \<open>The threat classifier\<close>

lemma check_list_eq: "check_list ft l flag \<longleftrightarrow> flag \<or> ft \<in> set l"
  by (induction l) auto

lemma check_values_eq: "check_values ft vals flag \<longleftrightarrow> flag \<or> ft \<in> \<Union> (extensions ` set vals)"
  by (induction ft vals flag rule: check_values.induct) (auto simp: check_list_eq)

text \<open>
  Claim C8: for every extension string, \<open>check_threats\<close> returns true if and only if the
  extension belongs to the union of the threat catalog's values, an extension being a
  value itself or an element of a list-valued one. The function takes the catalog and the
  extension and nothing else: no world, no trace.
\<close>

theorem check_threats_union:
  "check_threats THREAT_EXTENSIONS ft \<longleftrightarrow> ft \<in> \<Union> (extensions ` snd ` set THREAT_EXTENSIONS)"
proof -
  have "check_threats THREAT_EXTENSIONS ft
      \<longleftrightarrow> False \<or> ft \<in> \<Union> (extensions ` set (map snd THREAT_EXTENSIONS))"
    unfolding check_threats_def by (rule check_values_eq)
  then show ?thesis by simp
qed

theorem check_threats_union_witness:
  "check_threats threat_catalog ''jpeg'' \<and> ''jpeg'' \<in> \<Union> (extensions ` snd ` set threat_catalog)
   \<and> \<not> check_threats threat_catalog ''pdf'' \<and> ''pdf'' \<notin> \<Union> (extensions ` snd ` set threat_catalog)"
proof -
  have 1: "''jpeg'' \<in> \<Union> (extensions ` snd ` set threat_catalog)"
    by (simp add: threat_catalog_def)
  have 2: "''pdf'' \<notin> \<Union> (extensions ` snd ` set threat_catalog)"
    by (simp add: threat_catalog_def)
  show ?thesis
    using 1 2 check_threats_union[of threat_catalog "''jpeg''"]
      check_threats_union[of threat_catalog "''pdf''"] by simp
qed

subsection \<open>The liveness probe\<close>

text \<open>
  Claim C6: for every URL, \<open>get_url_nofollow\<close> raises nothing: it returns the status code
  of the response when \<open>urlopen\<close> returns one, the code of the \<open>HTTPError\<close> when \<open>urlopen\<close>
  raises one, and 0 when \<open>urlopen\<close> raises anything else.
\<close>

theorem get_url_nofollow_never_raises:
  "\<exists>code w'. get_url_nofollow env url (w, tr)
       = (Inr code, (w', tr @ [Urlopen url (fst (urlopen env w url))]))
     \<and> code = (case fst (urlopen env w url) of
                 Inr response \<Rightarrow> getcode response
               | Inl (HTTPError c) \<Rightarrow> c
               | Inl e \<Rightarrow> 0)"
proof -
  from get_url_nofollow_run[of env url w tr] obtain code where
    1: "get_url_nofollow env url (w, tr)
       = (Inr code, (snd (urlopen env w url), tr @ [Urlopen url (fst (urlopen env w url))]))"
    and 2: "probe_code (fst (urlopen env w url)) = Inr code"
    by blast
  from 2 have "code = (case fst (urlopen env w url) of
                 Inr response \<Rightarrow> getcode response
               | Inl (HTTPError c) \<Rightarrow> c
               | Inl e \<Rightarrow> 0)"
    by (cases "fst (urlopen env w url)" rule: probe_code.cases) auto
  with 1 show ?thesis by blast
qed

theorem get_url_nofollow_never_raises_witness:
  "fst (get_url_nofollow mock ''http://a/1.pdf'' (0, [])) = Inr 200
   \<and> fst (get_url_nofollow mock ''http://c/3.pdf'' (0, [])) = Inr 404
   \<and> fst (get_url_nofollow mock ''http://b/2.pdf'' (0, [])) = Inr 0"
  using get_url_nofollow_never_raises[of mock "''http://a/1.pdf''" 0 "[]"]
    get_url_nofollow_never_raises[of mock "''http://c/3.pdf''" 0 "[]"]
    get_url_nofollow_never_raises[of mock "''http://b/2.pdf''" 0 "[]"]
  by (auto simp: mock_def)

subsection \<open>The link validator\<close>

lemma subseq_first_occurrences: "subseq (rev (remdups (rev xs))) xs"
proof (induction xs rule: rev_induct)
  case Nil
  then show ?case by simp
next
  case (snoc x xs)
  show ?case
  proof (cases "x \<in> set xs")
    case True
    then show ?thesis using snoc by (simp add: subseq_rev_drop_many)
  next
    case False
    then show ?thesis using snoc by (simp add: list_emb_append_mono)
  qed
qed

lemma probes_prints: "probes (map (\<lambda>(url, code). Print (f code url)) urls) = []"
  by (induction urls) auto

lemma get_starts_prints: "get_starts (map (\<lambda>(url, code). Print (f code url)) urls) = []"
  by (induction urls) auto

lemma printed_prints:
  "printed (map (\<lambda>(url, code). Print (f code url)) urls) = map (\<lambda>(url, code). f code url) urls"
  by (induction urls) auto

lemma get_pages_no_starts: "get_starts evs = [] \<Longrightarrow> get_pages evs = []"
  by (induction evs rule: get_pages.induct) auto

lemma scheme_ok_iff:
  "scheme_ok link \<longleftrightarrow>
     (\<exists>ps ss. ''http://'' = ps @ take 7 link @ ss) \<or> (\<exists>ps ss. ''https://'' = ps @ take 8 link @ ss)"
  unfolding scheme_ok_def py_in_iff ..

text \<open>
  Claim C2: for every candidate string, the scheme filter of \<open>validate_links\<close> retains the
  candidate if and only if its first seven characters occur somewhere in \<open>"http://"\<close> or its
  first eight characters occur somewhere in \<open>"https://"\<close>: a substring test, not a prefix or
  equality test (the witness retains \<open>"p:/"\<close>). The retained candidates, in their order,
  are the links \<open>validate_links\<close> goes on to probe.
\<close>

theorem scheme_filter_substring:
  "filter_loop links [] =
     filter (\<lambda>link. (\<exists>ps ss. ''http://'' = ps @ take 7 link @ ss)
                   \<or> (\<exists>ps ss. ''https://'' = ps @ take 8 link @ ss)) links
   \<and> (\<exists>r w' evs. validate_links env links (w, tr) = (r, (w', tr @ evs))
        \<and> map fst (probes evs) =
            filter (\<lambda>link. (\<exists>ps ss. ''http://'' = ps @ take 7 link @ ss)
                          \<or> (\<exists>ps ss. ''https://'' = ps @ take 8 link @ ss)) links)"
proof -
  have f: "filter_loop links [] =
     filter (\<lambda>link. (\<exists>ps ss. ''http://'' = ps @ take 7 link @ ss)
                   \<or> (\<exists>ps ss. ''https://'' = ps @ take 8 link @ ss)) links"
    unfolding filter_loop_eq scheme_ok_iff[abs_def] by simp
  from validate_links_run[of env links w tr] obtain urls w' evs where
    1: "validate_links env links (w, tr)
         = (Inr (filter (\<lambda>url. map_of urls url \<noteq> Some 0) (map fst urls)),
            (w', tr @ evs @ map (\<lambda>(url, code). Print (report_line code url)) urls))"
    and 2: "map fst (probes evs) = filter_loop links []"
    by blast
  have "map fst (probes (evs @ map (\<lambda>(url, code). Print (report_line code url)) urls))
      = filter_loop links []"
    using 2 by (simp add: probes_append probes_prints)
  with 1 have "\<exists>r w' evs. validate_links env links (w, tr) = (r, (w', tr @ evs))
        \<and> map fst (probes evs) = filter_loop links []"
    by blast
  with f show ?thesis by simp
qed

theorem scheme_filter_substring_witness:
  "filter_loop [''http://a/1.pdf'', ''ftp://x'', ''p:/'', ''https://s/'', ''httpx://y''] []
     = [''http://a/1.pdf'', ''p:/'', ''https://s/'']
   \<and> filter (\<lambda>link. (\<exists>ps ss. ''http://'' = ps @ take 7 link @ ss)
                   \<or> (\<exists>ps ss. ''https://'' = ps @ take 8 link @ ss))
        [''http://a/1.pdf'', ''ftp://x'', ''p:/'', ''https://s/'', ''httpx://y'']
     = [''http://a/1.pdf'', ''p:/'', ''https://s/'']"
proof -
  have "filter_loop [''http://a/1.pdf'', ''ftp://x'', ''p:/'', ''https://s/'', ''httpx://y''] []
     = [''http://a/1.pdf'', ''p:/'', ''https://s/'']"
    by (simp add: scheme_ok_def)
  then show ?thesis
    using scheme_filter_substring[of "[''http://a/1.pdf'', ''ftp://x'', ''p:/'', ''https://s/'', ''httpx://y'']" mock 0 "[]"]
    by simp
qed

lemma accepted_iff:
  "link \<in> set (filter (\<lambda>url. map_of urls url \<noteq> Some 0) (map fst urls))
     \<longleftrightarrow> (\<exists>code. map_of urls link = Some code \<and> code \<noteq> (0::int))"
proof -
  have "link \<in> fst ` set urls \<longleftrightarrow> (\<exists>code. map_of urls link = Some code)"
    by (metis map_of_eq_None_iff not_Some_eq)
  then show ?thesis by auto
qed

text \<open>
  Claim C1: for every list of links, with \<open>urls\<close> the codes \<open>validate_links\<close> recorded for
  the links it probed, a link is in the result if and only if its recorded code is not 0.
  So a link recorded with an HTTP error status such as 404 or 500 is in the result, and a
  link recorded with 0 is not.
\<close>

theorem validate_links_accepts_nonzero:
  "\<exists>urls st1 available st2.
     probe_loop env (filter_loop links []) [] st = (Inr urls, st1)
     \<and> validate_links env links st = (Inr available, st2)
     \<and> (\<forall>link. link \<in> set available \<longleftrightarrow> (\<exists>code. map_of urls link = Some code \<and> code \<noteq> 0))
     \<and> {link. map_of urls link = Some 404 \<or> map_of urls link = Some 500} \<subseteq> set available
     \<and> {link. map_of urls link = Some 0} \<inter> set available = {}"
proof -
  obtain w tr where st: "st = (w, tr)" by (cases st)
  from validate_links_run[of env links w tr] obtain urls w' evs where
    1: "probe_loop env (filter_loop links []) [] (w, tr) = (Inr urls, (w', tr @ evs))"
    and 2: "validate_links env links (w, tr)
         = (Inr (filter (\<lambda>url. map_of urls url \<noteq> Some 0) (map fst urls)),
            (w', tr @ evs @ map (\<lambda>(url, code). Print (report_line code url)) urls))"
    by blast
  let ?available = "filter (\<lambda>url. map_of urls url \<noteq> Some 0) (map fst urls)"
  have a: "\<forall>link. link \<in> set ?available \<longleftrightarrow> (\<exists>code. map_of urls link = Some code \<and> code \<noteq> 0)"
    using accepted_iff[of _ urls] by blast
  then have b: "{link. map_of urls link = Some 404 \<or> map_of urls link = Some 500} \<subseteq> set ?available"
    by auto
  from a have c: "{link. map_of urls link = Some 0} \<inter> set ?available = {}"
    by auto
  show ?thesis
    unfolding st
    by (rule exI[of _ urls], rule exI[of _ "(w', tr @ evs)"], rule exI[of _ ?available],
        rule exI[of _ "(w', tr @ evs @ map (\<lambda>(url, code). Print (report_line code url)) urls)"])
       (insert 1 2 a b c, intro conjI, assumption+)
qed

theorem validate_links_accepts_nonzero_witness:
  "fst (probe_loop mock (filter_loop [''http://a/1.pdf'', ''http://b/2.pdf'', ''http://c/3.pdf''] []) [] (0, []))
     = Inr [(''http://a/1.pdf'', 200), (''http://b/2.pdf'', 0), (''http://c/3.pdf'', 404)]
   \<and> fst (validate_links mock [''http://a/1.pdf'', ''http://b/2.pdf'', ''http://c/3.pdf''] (0, []))
     = Inr [''http://a/1.pdf'', ''http://c/3.pdf'']
   \<and> ''http://c/3.pdf'' \<in> set [''http://a/1.pdf'', ''http://c/3.pdf'']
   \<and> ''http://b/2.pdf'' \<notin> set [''http://a/1.pdf'', ''http://c/3.pdf'']"
proof -
  have p: "probe_loop mock (filter_loop [''http://a/1.pdf'', ''http://b/2.pdf'', ''http://c/3.pdf''] []) [] (0, [])
     = (Inr [(''http://a/1.pdf'', 200), (''http://b/2.pdf'', 0), (''http://c/3.pdf'', 404)],
        (3, [Urlopen ''http://a/1.pdf'' (Inr (Response 200)),
             Urlopen ''http://b/2.pdf'' (Inl URLError),
             Urlopen ''http://c/3.pdf'' (Inl (HTTPError 404))]))"
    by (simp add: scheme_ok_def get_url_nofollow_def mock_def numeral_3_eq_3)
  from validate_links_accepts_nonzero[of mock "[''http://a/1.pdf'', ''http://b/2.pdf'', ''http://c/3.pdf'']" "(0, [])"]
  obtain urls st1 available st2 where
    1: "probe_loop mock (filter_loop [''http://a/1.pdf'', ''http://b/2.pdf'', ''http://c/3.pdf''] []) [] (0, []) = (Inr urls, st1)"
    and 2: "validate_links mock [''http://a/1.pdf'', ''http://b/2.pdf'', ''http://c/3.pdf''] (0, []) = (Inr available, st2)"
    and 3: "\<forall>link. link \<in> set available \<longleftrightarrow> (\<exists>code. map_of urls link = Some code \<and> code \<noteq> 0)"
    by blast
  from 1 p have u: "urls = [(''http://a/1.pdf'', 200), (''http://b/2.pdf'', 0), (''http://c/3.pdf'', 404)]"
    by simp
  have v: "validate_links mock [''http://a/1.pdf'', ''http://b/2.pdf'', ''http://c/3.pdf''] (0, [])
    = (Inr [''http://a/1.pdf'', ''http://c/3.pdf''], st2)"
    using 2 p by (simp add: validate_links_def)
  from 3 u have "''http://c/3.pdf'' \<in> set available" "''http://b/2.pdf'' \<notin> set available"
    by simp_all
  with 2 v p show ?thesis by simp
qed

text \<open>
  Claim C9: for every input list, \<open>validate_links\<close> raises nothing, probes the retained
  links in input order, then prints exactly one line \<open>code: <code>\turl: <url>\<close> for each
  link it probed (a link probed more than once has one line, at the place of its first
  probe), and returns the accepted links without repetition in that same order, which is
  the order of the input.
\<close>

theorem validate_links_report_and_order:
  "\<exists>urls available w' evs.
     validate_links env links (w, tr)
       = (Inr available, (w', tr @ evs @ map (\<lambda>(url, code). Print (report_line code url)) urls))
     \<and> length evs = length (probes evs) \<and> printed evs = []
     \<and> map fst (probes evs) = filter_loop links []
     \<and> map fst urls = rev (remdups (rev (map fst (probes evs))))
     \<and> distinct (map fst urls) \<and> set (map fst urls) = set (map fst (probes evs))
     \<and> available = filter (\<lambda>url. map_of urls url \<noteq> Some 0) (map fst urls)
     \<and> distinct available \<and> subseq available links"
proof -
  from validate_links_run[of env links w tr] obtain urls w' evs where
    1: "validate_links env links (w, tr)
         = (Inr (filter (\<lambda>url. map_of urls url \<noteq> Some 0) (map fst urls)),
            (w', tr @ evs @ map (\<lambda>(url, code). Print (report_line code url)) urls))"
    and 2: "map fst (probes evs) = filter_loop links []"
    and 3: "length evs = length (filter_loop links [])"
    and 4: "printed evs = []"
    and 5: "map fst urls = rev (remdups (rev (filter_loop links [])))"
    by blast
  let ?available = "filter (\<lambda>url. map_of urls url \<noteq> Some 0) (map fst urls)"
  have a: "length evs = length (probes evs)"
    using 2 3 by (metis length_map)
  have b: "map fst urls = rev (remdups (rev (map fst (probes evs))))"
    using 2 5 by simp
  have c: "distinct (map fst urls)" "set (map fst urls) = set (map fst (probes evs))"
    unfolding b by simp_all
  have d: "distinct ?available"
    using c by simp
  have "subseq (map fst urls) (filter_loop links [])"
    unfolding 5 by (rule subseq_first_occurrences)
  moreover have "subseq (filter_loop links []) links"
    unfolding filter_loop_eq by simp
  moreover have "subseq ?available (map fst urls)"
    by simp
  ultimately have e: "subseq ?available links"
    by (meson subseq_order.order_trans)
  have f: "?available = filter (\<lambda>url. map_of urls url \<noteq> Some 0) (map fst urls)" ..
  show ?thesis
    by (rule exI[of _ urls], rule exI[of _ ?available], rule exI[of _ w'], rule exI[of _ evs])
       (insert 1 a 4 2 b c d e f, intro conjI, assumption+)
qed

theorem validate_links_report_and_order_witness:
  "validate_links mock [''http://c/3.pdf'', ''ftp://x'', ''http://b/2.pdf'', ''http://a/1.pdf'', ''http://c/3.pdf''] (0, [])
     = (Inr [''http://c/3.pdf'', ''http://a/1.pdf''],
        (4, [Urlopen ''http://c/3.pdf'' (Inl (HTTPError 404)),
             Urlopen ''http://b/2.pdf'' (Inl URLError),
             Urlopen ''http://a/1.pdf'' (Inr (Response 200)),
             Urlopen ''http://c/3.pdf'' (Inl (HTTPError 404)),
             Print (''code: 404'' @ [CHR 0x09] @ ''url: http://c/3.pdf''),
             Print (''code: 0'' @ [CHR 0x09] @ ''url: http://b/2.pdf''),
             Print (''code: 200'' @ [CHR 0x09] @ ''url: http://a/1.pdf'')]))
   \<and> subseq [''http://c/3.pdf'', ''http://a/1.pdf'']
        [''http://c/3.pdf'', ''ftp://x'', ''http://b/2.pdf'', ''http://a/1.pdf'', ''http://c/3.pdf'']"
proof -
  have p: "probe_loop mock (filter_loop [''http://c/3.pdf'', ''ftp://x'', ''http://b/2.pdf'', ''http://a/1.pdf'', ''http://c/3.pdf''] []) [] (0, [])
     = (Inr [(''http://c/3.pdf'', 404), (''http://b/2.pdf'', 0), (''http://a/1.pdf'', 200)],
        (4, [Urlopen ''http://c/3.pdf'' (Inl (HTTPError 404)),
             Urlopen ''http://b/2.pdf'' (Inl URLError),
             Urlopen ''http://a/1.pdf'' (Inr (Response 200)),
             Urlopen ''http://c/3.pdf'' (Inl (HTTPError 404))]))"
    by (simp add: scheme_ok_def get_url_nofollow_def mock_def eval_nat_numeral)
  have d: "str_of_int 404 = ''404''" "str_of_int 0 = ''0''" "str_of_int 200 = ''200''"
    by code_simp+
  have v: "validate_links mock [''http://c/3.pdf'', ''ftp://x'', ''http://b/2.pdf'', ''http://a/1.pdf'', ''http://c/3.pdf''] (0, [])
     = (Inr [''http://c/3.pdf'', ''http://a/1.pdf''],
        (4, [Urlopen ''http://c/3.pdf'' (Inl (HTTPError 404)),
             Urlopen ''http://b/2.pdf'' (Inl URLError),
             Urlopen ''http://a/1.pdf'' (Inr (Response 200)),
             Urlopen ''http://c/3.pdf'' (Inl (HTTPError 404)),
             Print (''code: 404'' @ [CHR 0x09] @ ''url: http://c/3.pdf''),
             Print (''code: 0'' @ [CHR 0x09] @ ''url: http://b/2.pdf''),
             Print (''code: 200'' @ [CHR 0x09] @ ''url: http://a/1.pdf'')]))"
    unfolding validate_links_def p by (simp add: report_line_def d)
  from validate_links_report_and_order[of mock "[''http://c/3.pdf'', ''ftp://x'', ''http://b/2.pdf'', ''http://a/1.pdf'', ''http://c/3.pdf'']" 0 "[]"]
  obtain available st' where
    "validate_links mock [''http://c/3.pdf'', ''ftp://x'', ''http://b/2.pdf'', ''http://a/1.pdf'', ''http://c/3.pdf''] (0, [])
       = (Inr available, st')"
    and "subseq available [''http://c/3.pdf'', ''ftp://x'', ''http://b/2.pdf'', ''http://a/1.pdf'', ''http://c/3.pdf'']"
    by blast
  with v show ?thesis by simp
qed

lemma last_probe_prints:
  "last_probe (evs @ map (\<lambda>(url, code). Print (f code url)) urls) = last_probe evs"
  by (rule ext) (simp add: last_probe_def probes_append probes_prints)

text \<open>
  Claim C10: for every input list, also one that repeats a URL, the result of
  \<open>validate_links\<close> holds no URL twice, and a URL is in it if and only if the last probe of
  that URL returned a code other than 0: a later probe overwrites what an earlier one
  recorded for the same URL.
\<close>

theorem validate_links_duplicates:
  "\<exists>available w' evs.
     validate_links env links (w, tr) = (Inr available, (w', tr @ evs))
     \<and> distinct available
     \<and> (\<forall>url. url \<in> set available \<longleftrightarrow> (\<exists>code. last_probe evs url = Some code \<and> code \<noteq> 0))"
proof -
  from validate_links_run[of env links w tr] obtain urls w' evs where
    1: "validate_links env links (w, tr)
         = (Inr (filter (\<lambda>url. map_of urls url \<noteq> Some 0) (map fst urls)),
            (w', tr @ evs @ map (\<lambda>(url, code). Print (report_line code url)) urls))"
    and 5: "map fst urls = rev (remdups (rev (filter_loop links [])))"
    and 6: "map_of urls = map_of (rev (probes evs))"
    by blast
  let ?available = "filter (\<lambda>url. map_of urls url \<noteq> Some 0) (map fst urls)"
  let ?evs = "evs @ map (\<lambda>(url, code). Print (report_line code url)) urls"
  have l: "last_probe ?evs = map_of urls"
    unfolding last_probe_prints 6 by (rule ext) (simp add: last_probe_def)
  have d: "distinct ?available"
    unfolding 5 by simp
  have a: "\<forall>url. url \<in> set ?available \<longleftrightarrow> (\<exists>code. last_probe ?evs url = Some code \<and> code \<noteq> 0)"
    unfolding l using accepted_iff[of _ urls] by blast
  show ?thesis
    by (rule exI[of _ ?available], rule exI[of _ w'], rule exI[of _ ?evs])
       (insert 1 d a, intro conjI, assumption+)
qed


theorem validate_links_duplicates_witness:
  "validate_links mock [''http://flaky/'', ''http://flaky/''] (0, [])
     = (Inr [], (2, [Urlopen ''http://flaky/'' (Inr (Response 200)),
                     Urlopen ''http://flaky/'' (Inl URLError),
                     Print (''code: 0'' @ [CHR 0x09] @ ''url: http://flaky/'')]))
   \<and> last_probe [Urlopen ''http://flaky/'' (Inr (Response 200)),
                  Urlopen ''http://flaky/'' (Inl URLError),
                  Print (''code: 0'' @ [CHR 0x09] @ ''url: http://flaky/'')] ''http://flaky/'' = Some 0
   \<and> fst (validate_links mock [''http://a/1.pdf'', ''http://flaky/'', ''http://flaky/''] (0, []))
     = Inr [''http://a/1.pdf'', ''http://flaky/'']"
proof -
  have d: "str_of_int 0 = ''0''" "str_of_int 200 = ''200''"
    by code_simp+
  have p: "probe_loop mock (filter_loop [''http://flaky/'', ''http://flaky/''] []) [] (0, [])
     = (Inr [(''http://flaky/'', 0)],
        (2, [Urlopen ''http://flaky/'' (Inr (Response 200)),
             Urlopen ''http://flaky/'' (Inl URLError)]))"
    by (simp add: scheme_ok_def get_url_nofollow_def mock_def eval_nat_numeral)
  have v: "validate_links mock [''http://flaky/'', ''http://flaky/''] (0, [])
     = (Inr [], (2, [Urlopen ''http://flaky/'' (Inr (Response 200)),
                     Urlopen ''http://flaky/'' (Inl URLError),
                     Print (''code: 0'' @ [CHR 0x09] @ ''url: http://flaky/'')]))"
    unfolding validate_links_def p by (simp add: report_line_def d)
  from validate_links_duplicates[of mock "[''http://flaky/'', ''http://flaky/'']" 0 "[]"]
  obtain available w' evs where
    1: "validate_links mock [''http://flaky/'', ''http://flaky/''] (0, []) = (Inr available, (w', [] @ evs))"
    and 2: "\<forall>url. url \<in> set available \<longleftrightarrow> (\<exists>code. last_probe evs url = Some code \<and> code \<noteq> 0)"
    by blast
  from 1 v have e: "available = []"
    "evs = [Urlopen ''http://flaky/'' (Inr (Response 200)),
            Urlopen ''http://flaky/'' (Inl URLError),
            Print (''code: 0'' @ [CHR 0x09] @ ''url: http://flaky/'')]"
    by simp_all
  have l: "last_probe evs ''http://flaky/'' = Some 0"
    unfolding e by (simp add: last_probe_def)
  have p2: "probe_loop mock (filter_loop [''http://a/1.pdf'', ''http://flaky/'', ''http://flaky/''] []) [] (0, [])
     = (Inr [(''http://a/1.pdf'', 200), (''http://flaky/'', 200)],
        (3, [Urlopen ''http://a/1.pdf'' (Inr (Response 200)),
             Urlopen ''http://flaky/'' (Inl URLError),
             Urlopen ''http://flaky/'' (Inr (Response 200))]))"
    by (simp add: scheme_ok_def get_url_nofollow_def mock_def eval_nat_numeral)
  have v2: "fst (validate_links mock [''http://a/1.pdf'', ''http://flaky/'', ''http://flaky/''] (0, []))
     = Inr [''http://a/1.pdf'', ''http://flaky/'']"
    unfolding validate_links_def p2 by (simp add: report_line_def d)
  show ?thesis using v l v2 unfolding e by simp
qed

subsection \<open>The pager\<close>

text \<open>
  Claim C4, as amended: for every limit, \<open>get_links\<close> issues requests only at start
  offsets that are multiples of 10 below the limit, in increasing order from 0 without a
  gap, and when it returns it has issued one request for each such offset (the limit
  divided by 10 and rounded up, not down) and returns at most \<open>limit\<close> links, none for a
  limit that is not positive. On a network that answers every request it does return.
\<close>

theorem get_links_paging:
  "\<exists>r w' evs.
     get_links env lim q (w, tr) = (r, (w', tr @ evs))
     \<and> length (get_starts evs) = length evs
     \<and> prefix (get_starts evs) (py_range 0 lim 10)
     \<and> set (get_starts evs) \<subseteq> {i. 0 \<le> i \<and> i < lim \<and> i mod 10 = 0}
     \<and> (\<forall>links. r = Inr links \<longrightarrow>
           int (length links) \<le> max 0 lim \<and> length evs = nat ((lim + 9) div 10))
     \<and> (reliable env \<longrightarrow> (\<exists>links. r = Inr links))"
proof -
  from get_links_trace[of env lim q w tr] obtain r w' evs where
    1: "get_links env lim q (w, tr) = (r, (w', tr @ evs))"
    and 2: "prefix (get_starts evs) (py_range 0 lim 10)"
    and 3: "length (get_starts evs) = length evs"
    and 4: "\<forall>ls. r = Inr ls \<longrightarrow> get_starts evs = py_range 0 lim 10
            \<and> ls = py_slice_to (concat (get_pages evs)) lim"
    by blast
  have a: "set (get_starts evs) \<subseteq> {i. 0 \<le> i \<and> i < lim \<and> i mod 10 = 0}"
    using set_mono_prefix[OF 2] unfolding set_py_range .
  have b: "\<forall>links. r = Inr links \<longrightarrow>
           int (length links) \<le> max 0 lim \<and> length evs = nat ((lim + 9) div 10)"
  proof (intro allI impI)
    fix links assume r: "r = Inr links"
    with 1 have "int (length links) \<le> max 0 lim"
      using get_links_length[of env lim q w tr links "(w', tr @ evs)"] by simp
    moreover from r 4 3 have "length evs = nat ((lim + 9) div 10)"
      using length_py_range[of lim] by simp
    ultimately show "int (length links) \<le> max 0 lim \<and> length evs = nat ((lim + 9) div 10)" ..
  qed
  have c: "reliable env \<longrightarrow> (\<exists>links. r = Inr links)"
    using get_links_reliable[of env lim q "(w, tr)"] 1 by auto
  show ?thesis
    by (rule exI[of _ r], rule exI[of _ w'], rule exI[of _ evs])
       (insert 1 3 2 a b c, intro conjI, assumption+)
qed

lemma reliable_full_page: "reliable full_page"
  by (simp add: reliable_def full_page_def mock_def scrape_def eval_nat_numeral)

lemma full_page_15:
  "get_links full_page 15 ''q'' (0, [])
     = (Inr (replicate 15 ''http://a/1.pdf''),
        (2, [Get ''q'' 0 (Inr (replicate 10 (H3 (Some (Tag (Some ''/url?q=http://a/1.pdf&sa=U'')))))),
             Get ''q'' 10 (Inr (replicate 10 (H3 (Some (Tag (Some ''/url?q=http://a/1.pdf&sa=U''))))))]))"
  by (simp add: get_links_def py_range_10 full_page_def mock_def scrape_def py_slice_to_def
      eval_nat_numeral upt_rec)

theorem get_links_paging_witness:
  "reliable full_page
   \<and> fst (get_links full_page 15 ''q'' (0, [])) = Inr (replicate 15 ''http://a/1.pdf'')
   \<and> get_starts (snd (snd (get_links full_page 15 ''q'' (0, [])))) = [0, 10]
   \<and> set [0, 10] \<subseteq> {i. 0 \<le> i \<and> i < (15::int) \<and> i mod 10 = 0}
   \<and> int (length (replicate 15 ''http://a/1.pdf'')) \<le> max 0 15"
proof -
  from get_links_paging[of full_page 15 "''q''" 0 "[]"] obtain r w' evs where
    1: "get_links full_page 15 ''q'' (0, []) = (r, (w', [] @ evs))"
    and 2: "set (get_starts evs) \<subseteq> {i. 0 \<le> i \<and> i < 15 \<and> i mod 10 = 0}"
    and 3: "\<forall>links. r = Inr links \<longrightarrow>
           int (length links) \<le> max 0 15 \<and> length evs = nat ((15 + 9) div 10)"
    by blast
  from 1 have r: "r = Inr (replicate 15 ''http://a/1.pdf'')"
    and e: "get_starts evs = [0, 10]"
    unfolding full_page_15 by auto
  from 3 r have "int (length (replicate 15 ''http://a/1.pdf'')) \<le> max 0 15"
    by blast
  with 2 e reliable_full_page show ?thesis
    unfolding full_page_15 by simp
qed

text \<open>
  Claim C4 as stated fails: with the limit 15 and full pages, two requests are issued and
  15 links are returned, more than 15 rounded down to a multiple of 10.
\<close>

theorem get_links_rounds_down_counterexample:
  "map_sum id length (fst (get_links full_page 15 ''q'' (0, []))) = Inr 15
   \<and> \<not> (15 \<le> (15 div 10) * (10::nat))"
  unfolding full_page_15 by simp

subsection \<open>The search orchestrator\<close>

text \<open>
  Claim C7: for every limit \<open>L\<close> that is a non-negative multiple of 10, on a network that
  answers every search request, \<open>search\<close> returns, having issued exactly \<open>L / 10\<close> search
  requests, at the start offsets \<open>0, 10, ..., L - 10\<close> in this order; it returns at most \<open>L\<close>
  links, and they keep the order of the scraped pages: the order of the links within a
  page, and the order of the pages.
\<close>

theorem search_paging:
  assumes "reliable env" and "0 \<le> L" and "L mod 10 = 0"
  shows "\<exists>links w' evs.
     search env qry ft L (w, tr) = (Inr links, (w', tr @ evs))
     \<and> get_starts evs = map (\<lambda>k. 10 * int k) [0..<nat (L div 10)]
     \<and> length (get_starts evs) = nat (L div 10)
     \<and> length links \<le> nat L
     \<and> subseq links (take (nat L) (concat (get_pages evs)))"
proof -
  let ?q = "''filetype:'' @ ft @ '' '' @ qry"
  from get_links_trace[of env L ?q w tr] obtain r w1 evs1 where
    1: "get_links env L ?q (w, tr) = (r, (w1, tr @ evs1))"
    and 2: "\<forall>ls. r = Inr ls \<longrightarrow> get_starts evs1 = py_range 0 L 10
            \<and> ls = py_slice_to (concat (get_pages evs1)) L"
    by blast
  from get_links_reliable[OF assms(1), of L ?q "(w, tr)"] 1 obtain ls where r: "r = Inr ls"
    by auto
  with 2 have g: "get_starts evs1 = map (\<lambda>k. 10 * int k) [0..<nat (L div 10)]"
    and ls: "ls = take (nat L) (concat (get_pages evs1))"
    using py_range_multiple[OF assms(2,3)] assms(2) by (simp_all add: py_slice_to_def)
  from validate_links_run[of env ls w1 "tr @ evs1"] obtain urls w' evs2 where
    3: "validate_links env ls (w1, tr @ evs1)
         = (Inr (filter (\<lambda>url. map_of urls url \<noteq> Some 0) (map fst urls)),
            (w', (tr @ evs1) @ evs2 @ map (\<lambda>(url, code). Print (report_line code url)) urls))"
    and 4: "get_starts evs2 = []"
    and 5: "map fst urls = rev (remdups (rev (filter_loop ls [])))"
    by blast
  let ?links = "filter (\<lambda>url. map_of urls url \<noteq> Some 0) (map fst urls)"
  let ?evs = "evs1 @ evs2 @ map (\<lambda>(url, code). Print (report_line code url)) urls"
  have a: "search env qry ft L (w, tr) = (Inr ?links, (w', tr @ ?evs))"
    using 1 r 3 by (simp add: search_def)
  have b: "get_starts ?evs = map (\<lambda>k. 10 * int k) [0..<nat (L div 10)]"
    using g 4 by (simp add: get_starts_append get_starts_prints)
  have c: "length (get_starts ?evs) = nat (L div 10)"
    unfolding b by simp
  have p: "get_pages ?evs = get_pages evs1"
    using get_pages_no_starts[OF 4] get_pages_no_starts[OF get_starts_prints]
    by (simp add: get_pages_append)
  have "subseq (map fst urls) (filter_loop ls [])"
    unfolding 5 by (rule subseq_first_occurrences)
  moreover have "subseq (filter_loop ls []) ls"
    unfolding filter_loop_eq by simp
  moreover have "subseq ?links (map fst urls)"
    by simp
  ultimately have s: "subseq ?links ls"
    by (meson subseq_order.order_trans)
  then have e: "subseq ?links (take (nat L) (concat (get_pages ?evs)))"
    unfolding p ls .
  from s have "length ?links \<le> length ls"
    by (rule list_emb_length)
  then have d: "length ?links \<le> nat L"
    unfolding ls by simp
  show ?thesis
    by (rule exI[of _ ?links], rule exI[of _ w'], rule exI[of _ ?evs])
       (insert a b c d e, intro conjI, assumption+)
qed

lemma reliable_mock: "reliable mock"
  by (simp add: reliable_def mock_def scrape_def three_results_def)

theorem search_paging_witness:
  "reliable mock \<and> (0::int) \<le> 10 \<and> (10::int) mod 10 = 0
   \<and> fst (search mock ''algorithms'' ''pdf'' 10 (0, [])) = Inr [''http://a/1.pdf'', ''http://c/3.pdf'']
   \<and> get_starts (snd (snd (search mock ''algorithms'' ''pdf'' 10 (0, [])))) = [0]
   \<and> get_pages (snd (snd (search mock ''algorithms'' ''pdf'' 10 (0, []))))
       = [[''http://a/1.pdf'', ''http://b/2.pdf'', ''http://c/3.pdf'']]"
proof -
  have h: "(0::int) \<le> 10" "(10::int) mod 10 = 0" by simp_all
  from search_paging[OF reliable_mock h, of "''algorithms''" "''pdf''" 0 "[]"]
  obtain links w' evs where
    1: "search mock ''algorithms'' ''pdf'' 10 (0, []) = (Inr links, (w', [] @ evs))"
    and 2: "get_starts evs = map (\<lambda>k. 10 * int k) [0..<nat (10 div 10)]"
    by blast
  have g: "get_links mock 10 ''filetype:pdf algorithms'' (0, [])
     = (Inr [''http://a/1.pdf'', ''http://b/2.pdf'', ''http://c/3.pdf''],
        (1, [Get ''filetype:pdf algorithms'' 0 (Inr three_results)]))"
    by (simp add: get_links_def py_range_10 mock_def scrape_def py_slice_to_def three_results_def)
  have p: "probe_loop mock (filter_loop [''http://a/1.pdf'', ''http://b/2.pdf'', ''http://c/3.pdf''] []) []
       (1, [Get ''filetype:pdf algorithms'' 0 (Inr three_results)])
     = (Inr [(''http://a/1.pdf'', 200), (''http://b/2.pdf'', 0), (''http://c/3.pdf'', 404)],
        (4, [Get ''filetype:pdf algorithms'' 0 (Inr three_results),
             Urlopen ''http://a/1.pdf'' (Inr (Response 200)),
             Urlopen ''http://b/2.pdf'' (Inl URLError),
             Urlopen ''http://c/3.pdf'' (Inl (HTTPError 404))]))"
    by (simp add: scheme_ok_def get_url_nofollow_def mock_def eval_nat_numeral)
  have v: "search mock ''algorithms'' ''pdf'' 10 (0, [])
     = (Inr [''http://a/1.pdf'', ''http://c/3.pdf''],
        (4, [Get ''filetype:pdf algorithms'' 0 (Inr three_results),
             Urlopen ''http://a/1.pdf'' (Inr (Response 200)),
             Urlopen ''http://b/2.pdf'' (Inl URLError),
             Urlopen ''http://c/3.pdf'' (Inl (HTTPError 404)),
             Print (report_line 200 ''http://a/1.pdf''),
             Print (report_line 0 ''http://b/2.pdf''),
             Print (report_line 404 ''http://c/3.pdf'')]))"
    unfolding search_def Let_def
    using g p by (simp add: validate_links_def)
  have gp: "get_pages [Get ''filetype:pdf algorithms'' 0 (Inr three_results),
             Urlopen ''http://a/1.pdf'' (Inr (Response 200)),
             Urlopen ''http://b/2.pdf'' (Inl URLError),
             Urlopen ''http://c/3.pdf'' (Inl (HTTPError 404)),
             Print (report_line 200 ''http://a/1.pdf''),
             Print (report_line 0 ''http://b/2.pdf''),
             Print (report_line 404 ''http://c/3.pdf'')]
     = [[''http://a/1.pdf'', ''http://b/2.pdf'', ''http://c/3.pdf'']]"
    by (simp add: scrape_def three_results_def)
  from 1 2 have "get_starts (snd (snd (search mock ''algorithms'' ''pdf'' 10 (0, [])))) = [0]"
    by simp
  with reliable_mock h v gp show ?thesis by simp
qed

subsection \<open>The command line without a query\<close>

lemma prompt_trace:
  assumes "prompt env message errormessage isvalid isexit st = Some y"
  shows "\<exists>evs. snd (snd y) = snd st @ evs \<and> filter network_io evs = []"
proof (rule prompt.raw_induct[where P = "\<lambda>a b c d e st y.
    \<exists>evs. snd (snd y) = snd st @ evs \<and> filter network_io evs = []", OF _ assms], goal_cases)
  case (1 p a b c d e st y)
  obtain w tr where st: "st = (w, tr)" by (cases st)
  obtain r w1 where i: "input a w (b @ '': '') = (r, w1)" by (cases "input a w (b @ '': '')")
  show ?case
  proof (cases r)
    case (Inl x)
    with 1(2) st i show ?thesis by auto
  next
    case (Inr res)
    show ?thesis
    proof (cases "e res")
      case True
      with 1(2) st i Inr show ?thesis by auto
    next
      case False
      show ?thesis
      proof (cases "d res")
        case True
        with 1(2) st i Inr False show ?thesis by auto
      next
        case nv: False
        with 1(2) st i Inr False have
          "p a b c d e (w1, tr @ [Input (b @ '': '') r, Print c]) = Some y"
          by simp
        from 1(1)[OF this] obtain evs where
          "snd (snd y) = (tr @ [Input (b @ '': '') r, Print c]) @ evs" "filter network_io evs = []"
          by auto
        then have "snd (snd y) = snd st @ ([Input (b @ '': '') r, Print c] @ evs)
            \<and> filter network_io ([Input (b @ '': '') r, Print c] @ evs) = []"
          using st by simp
        then show ?thesis by blast
      qed
    qed
  qed
qed

text \<open>
  Claim C3, as amended: when the query is missing (absent or empty) and neither
  \<open>--available\<close> nor \<open>--threats\<close> is given, a run that ends has done no network I/O and
  has not returned normally; when the file type is not in the threat catalog, so that no
  confirmation is asked, the run prints \<open>Missing required query argument.\<close> and leaves
  through \<open>sys.exit()\<close>, whose exit status is 0.
\<close>

theorem main_missing_query:
  assumes "query args = None \<or> query args = Some []"
    and "\<not> available args" and "\<not> threats args"
  shows "(\<not> check_threats T (file_type args) \<longrightarrow>
            main env F T args (w, tr)
              = Some (Inl (SystemExit None),
                      (w, tr @ [Print (CHR 0x0A # ''Missing required query argument.'')]))
            \<and> map_option (exit_status \<circ> fst) (main env F T args (w, tr)) = Some 0)
       \<and> (\<forall>r w' tr'. main env F T args (w, tr) = Some (r, (w', tr')) \<longrightarrow>
            (\<exists>evs e. tr' = tr @ evs \<and> filter network_io evs = [] \<and> r = Inl e))"
proof (intro conjI impI allI)
  assume n: "\<not> check_threats T (file_type args)"
  with assms show m: "main env F T args (w, tr)
              = Some (Inl (SystemExit None),
                      (w, tr @ [Print (CHR 0x0A # ''Missing required query argument.'')]))"
    by (auto simp: main_def validate_args_def)
  show "map_option (exit_status \<circ> fst) (main env F T args (w, tr)) = Some 0"
    unfolding m by simp
next
  fix r w' tr'
  assume m: "main env F T args (w, tr) = Some (r, (w', tr'))"
  show "\<exists>evs e. tr' = tr @ evs \<and> filter network_io evs = [] \<and> r = Inl e"
  proof (cases "check_threats T (file_type args)")
    case False
    with assms m show ?thesis
      by (auto simp: main_def validate_args_def)
  next
    case True
    let ?p = "prompt env warning ''Error: Invalid option provided.'' (\<lambda>x. x = ''y'') (\<lambda>x. x = ''n'') (w, tr)"
    from True assms m obtain y where y: "?p = Some y"
      by (cases ?p) (auto simp: main_def)
    obtain r1 w1 tr1 where y1: "y = (r1, (w1, tr1))" by (cases y) auto
    from prompt_trace[OF y] y1 obtain evs where
      e: "tr1 = tr @ evs" "filter network_io evs = []"
      by auto
    show ?thesis
    proof (cases r1)
      case (Inl e1)
      with True assms m y y1 e show ?thesis
        by (auto simp: main_def)
    next
      case (Inr res)
      with True assms m y y1 have
        "tr' = tr1 @ [Print (CHR 0x0A # ''Missing required query argument.'')]"
        "r = Inl (SystemExit None)"
        by (auto simp: main_def validate_args_def)
      with e show ?thesis by simp
    qed
  qed
qed

theorem main_missing_query_witness:
  "(query no_query = None \<or> query no_query = Some []) \<and> \<not> available no_query \<and> \<not> threats no_query
   \<and> \<not> check_threats threat_catalog (file_type no_query)
   \<and> main mock [] threat_catalog no_query (0, [])
       = Some (Inl (SystemExit None), (0, [Print (CHR 0x0A # ''Missing required query argument.'')]))"
proof -
  have h: "query no_query = None \<or> query no_query = Some []" "\<not> available no_query" "\<not> threats no_query"
    by (simp_all add: no_query_def)
  have c: "\<not> check_threats threat_catalog (file_type no_query)"
    by (simp add: check_threats_def threat_catalog_def no_query_def)
  from main_missing_query[OF h, of threat_catalog mock "[]" 0 "[]"] c
  have "main mock [] threat_catalog no_query (0, [])
       = Some (Inl (SystemExit None), (0, [] @ [Print (CHR 0x0A # ''Missing required query argument.'')]))"
    by blast
  with h c show ?thesis by simp
qed

text \<open>
  Claim C3 as stated fails: with no query and no flag the exit status is 0, not a
  nonzero one.
\<close>

theorem main_missing_query_exit_status_counterexample:
  "map_option (exit_status \<circ> fst) (main mock [] threat_catalog no_query (0, [])) = Some 0"
  by (simp add: main_def no_query_def check_threats_def threat_catalog_def validate_args_def)

subsection \<open>What the scheme filter lets through\<close>

text \<open>
  Claim C5 says that every link \<open>validate_links\<close> probes and records begins with
  \<open>http://\<close> or \<open>https://\<close>, as the function's docstring has it (validation by http(s)
  prefix). The substring test breaks it: the link \<open>"http"\<close> is probed, recorded with the
  code 0 and reported.
\<close>

theorem validate_links_probes_non_url:
  "validate_links mock [''http''] (0, [])
     = (Inr [], (1, [Urlopen ''http'' (Inl URLError),
                     Print (''code: 0'' @ [CHR 0x09] @ ''url: http'')]))
   \<and> \<not> prefix ''http://'' ''http'' \<and> \<not> prefix ''https://'' ''http''"
proof -
  have d: "str_of_int 0 = ''0''" by code_simp
  have p: "probe_loop mock (filter_loop [''http''] []) [] (0, [])
     = (Inr [(''http'', 0)], (1, [Urlopen ''http'' (Inl URLError)]))"
    by (simp add: scheme_ok_def get_url_nofollow_def mock_def)
  show ?thesis
    unfolding validate_links_def p by (simp add: report_line_def d)
qed

end
